theory Spec2Isabelle
  imports Main "HOL-Library.Word" "HOL-Library.Sublist"
begin

unbundle bit_operations_syntax

section \<open>Data model\<close>

text \<open>
  A Python \<open>str\<close> is a sequence of Unicode code points; \<open>ord\<close> and \<open>chr\<close> are the
  identity in this representation. The strings of \<open>'0'\<close> and \<open>'1'\<close> that the codec
  builds are lists of booleans (\<open>True\<close> for \<open>'1'\<close>). A numpy \<open>uint8\<close> is an
  8-bit word.
\<close>

type_synonym pystr = "nat list"
type_synonym bits = "bool list"
type_synonym u8 = "8 word"
type_synonym path = string

definition str :: "string \<Rightarrow> pystr" where
  "str s = map of_char s"

text \<open>An exception, by what \<open>str(e)\<close> yields for it.\<close>

datatype exn = Exception pystr

fun str_exn :: "exn \<Rightarrow> pystr" where
  "str_exn (Exception m) = m"

text \<open>
  A loaded image: \<open>img.size\<close> is \<open>(width, height)\<close>, and \<open>img_flat\<close> is what
  \<open>np.array(img).flatten()\<close> yields once the image is in RGB mode: the channel bytes,
  row-major and channel-minor. numpy keeps an array as its flat data and a shape, so
  \<open>reshape\<close> to the original shape gives back an image of the same size.
\<close>

record image =
  img_size :: "nat \<times> nat"
  img_flat :: "u8 list"

text \<open>
  The world the methods run in. \<open>files\<close> is what loading the image at a path yields:
  the outcome of \<open>Image.open\<close> and, in \<open>encode\<close> and \<open>decode\<close>, of the conversion to
  RGB that follows it when the mode is another one (the size is the same before and
  after); \<open>Inl\<close> is the exception raised. The image library is outside the codec, so a
  file that cannot be converted is not told apart from one that cannot be opened.
  \<open>save_fault\<close> is the exception, if any, that \<open>save\<close> to a path raises; a save that
  raises is taken to write nothing. PNG is lossless, so a saved array is read back as it
  was written.
\<close>

record world =
  files :: "path \<Rightarrow> exn + image"
  save_fault :: "path \<Rightarrow> exn option"

text \<open>An RGB image has three channel values per pixel.\<close>

definition wf_image :: "image \<Rightarrow> bool" where
  "wf_image img = (length (img_flat img) = fst (img_size img) * snd (img_size img) * 3)"

section \<open>The codec\<close>

definition DELIMITER :: pystr where
  "DELIMITER = str ''<<END>>''"

definition MSG_HIDDEN :: pystr where
  "MSG_HIDDEN = str ''Message successfully hidden in image!''"

definition MSG_TOO_SMALL :: pystr where
  "MSG_TOO_SMALL =
     str ''Error: Image too small to hide this message. Try a larger image or shorter text.''"

definition MSG_NOT_FOUND :: pystr where
  "MSG_NOT_FOUND =
     str ''No hidden message found in this image. Make sure you'' @ [39] @
     str ''re using an image that was encoded with this tool.''"

subsection \<open>Text and bit strings\<close>

text \<open>\<open>format(n, 'b')\<close>: the binary digits of \<open>n\<close>, most significant first, no padding.\<close>

fun bin :: "nat \<Rightarrow> bits" where
  "bin n = (if n < 2 then [n = 1] else bin (n div 2) @ [n mod 2 = 1])"

declare bin.simps [simp del]

text \<open>\<open>format(n, '08b')\<close>: zero-padded on the left to a width of at least 8.\<close>

definition format_08b :: "nat \<Rightarrow> bits" where
  "format_08b n = replicate (8 - length (bin n)) False @ bin n"

definition text_to_binary :: "pystr \<Rightarrow> bits" where
  "text_to_binary text = concat (map (\<lambda>char. format_08b char) text)"

text \<open>\<open>int(byte, 2)\<close> on a string of binary digits.\<close>

definition int_base2 :: "bits \<Rightarrow> nat" where
  "int_base2 byte = foldl (\<lambda>acc b. 2 * acc + (if b then 1 else 0)) 0 byte"

text \<open>
  The loop \<open>for i in range(0, len(binary), 8)\<close>; \<open>binary[i:i+8]\<close> is
  \<open>take 8 (drop i binary)\<close>. \<open>chr\<close> never raises here: eight binary digits are at
  most 255.
\<close>

function b2t_loop :: "bits \<Rightarrow> nat \<Rightarrow> pystr \<Rightarrow> pystr" where
  "b2t_loop binary i text =
     (if i < length binary then
        (let byte = take 8 (drop i binary)
         in b2t_loop binary (i + 8)
              (if length byte = 8 then text @ [int_base2 byte] else text))
      else text)"
  by pat_completeness auto
termination
  by (relation "measure (\<lambda>(binary, i, text). length binary - i)") auto

declare b2t_loop.simps [simp del]

definition binary_to_text :: "bits \<Rightarrow> pystr" where
  "binary_to_text binary = b2t_loop binary 0 []"

subsection \<open>Capacity\<close>

definition get_max_capacity :: "world \<Rightarrow> path \<Rightarrow> int" where
  "get_max_capacity w image_path =
     (case files w image_path of
        Inl e \<Rightarrow> 0
      | Inr img \<Rightarrow>
          (let (width, height) = img_size img;
               total_pixels = int width * int height;
               total_bits = total_pixels * 3;
               delimiter_bits = int (length DELIMITER) * 8;
               available_bits = total_bits - delimiter_bits;
               max_chars = available_bits div 8
           in max_chars))"

subsection \<open>Encode\<close>

text \<open>\<open>str(n)\<close> of a natural number, and the exception of numpy for an index out of range.\<close>

fun decimal :: "nat \<Rightarrow> pystr" where
  "decimal n = (if n < 10 then [48 + n] else decimal (n div 10) @ [48 + n mod 10])"

declare decimal.simps [simp del]

definition IndexError :: "nat \<Rightarrow> nat \<Rightarrow> exn" where
  "IndexError i n =
     Exception (str ''index '' @ decimal i @
                str '' is out of bounds for axis 0 with size '' @ decimal n)"

definition int_bit :: "bool \<Rightarrow> u8" where
  "int_bit b = (if b then 1 else 0)"

text \<open>
  The loop \<open>for i, bit in enumerate(binary_secret)\<close>, from index \<open>i\<close> on. Indexing a
  numpy array out of range raises.
\<close>

fun encode_loop :: "u8 list \<Rightarrow> nat \<Rightarrow> bits \<Rightarrow> exn + u8 list" where
  "encode_loop flat_array i [] = Inr flat_array"
| "encode_loop flat_array i (b # rest) =
     (if i < length flat_array then
        encode_loop (flat_array[i := (flat_array ! i AND 0xFE) OR int_bit b]) (i + 1) rest
      else Inl (IndexError i (length flat_array)))"

text \<open>The body of the \<open>try\<close> block: \<open>Inl\<close> is an exception that leaves it.\<close>

definition encode_body ::
  "world \<Rightarrow> path \<Rightarrow> pystr \<Rightarrow> path \<Rightarrow> exn + ((bool \<times> pystr) \<times> world)" where
  "encode_body w image_path secret_text output_path =
     (case files w image_path of
        Inl e \<Rightarrow> Inl e
      | Inr img \<Rightarrow>
          (let flat_array = img_flat img;
               secret_text_with_delimiter = secret_text @ DELIMITER;
               binary_secret = text_to_binary secret_text_with_delimiter
           in if length binary_secret > length flat_array then
                Inr ((False, MSG_TOO_SMALL), w)
              else
                (case encode_loop flat_array 0 binary_secret of
                   Inl e \<Rightarrow> Inl e
                 | Inr encoded_array \<Rightarrow>
                     (case save_fault w output_path of
                        Some e \<Rightarrow> Inl e
                      | None \<Rightarrow>
                          Inr ((True, MSG_HIDDEN),
                               w\<lparr>files := (files w)
                                    (output_path := Inr (img\<lparr>img_flat := encoded_array\<rparr>))\<rparr>)))))"

definition encode :: "world \<Rightarrow> path \<Rightarrow> pystr \<Rightarrow> path \<Rightarrow> (bool \<times> pystr) \<times> world" where
  "encode w image_path secret_text output_path =
     (case encode_body w image_path secret_text output_path of
        Inl e \<Rightarrow> ((False, str ''Error during encoding: '' @ str_exn e), w)
      | Inr r \<Rightarrow> r)"

subsection \<open>Decode\<close>

text \<open>\<open>sub in s\<close> and \<open>s.split(sub)[0]\<close> for a non-empty \<open>sub\<close>.\<close>

fun contains :: "pystr \<Rightarrow> pystr \<Rightarrow> bool" where
  "contains sub [] = (sub = [])"
| "contains sub (c # s) = (prefix sub (c # s) \<or> contains sub s)"

fun split0 :: "pystr \<Rightarrow> pystr \<Rightarrow> pystr" where
  "split0 sub [] = []"
| "split0 sub (c # s) = (if prefix sub (c # s) then [] else c # split0 sub s)"

definition lsb :: "u8 \<Rightarrow> bool" where
  "lsb v = (v AND 1 = 1)"

text \<open>
  The loop \<open>for i, value in enumerate(flat_array)\<close>, from index \<open>i\<close> on, with the
  \<open>binary_message\<close> accumulated so far. The result is what the loop returns (\<open>None\<close>
  when it runs to its end) and the number of channel values read.
\<close>

fun decode_loop :: "u8 list \<Rightarrow> nat \<Rightarrow> bits \<Rightarrow> (bool \<times> pystr) option \<times> nat" where
  "decode_loop [] i binary_message = (None, i)"
| "decode_loop (v # rest) i binary_message =
     (let binary_message = binary_message @ [lsb v]
      in if length binary_message \<ge> 8 \<and> length binary_message mod 8 = 0 then
           (let extracted_text = binary_to_text binary_message
            in if contains DELIMITER extracted_text then
                 (Some (True, split0 DELIMITER extracted_text), i + 1)
               else decode_loop rest (i + 1) binary_message)
         else decode_loop rest (i + 1) binary_message)"

definition decode_body :: "world \<Rightarrow> path \<Rightarrow> exn + (bool \<times> pystr)" where
  "decode_body w image_path =
     (case files w image_path of
        Inl e \<Rightarrow> Inl e
      | Inr img \<Rightarrow>
          (case fst (decode_loop (img_flat img) 0 []) of
             Some r \<Rightarrow> Inr r
           | None \<Rightarrow> Inr (False, MSG_NOT_FOUND)))"

definition decode :: "world \<Rightarrow> path \<Rightarrow> bool \<times> pystr" where
  "decode w image_path =
     (case decode_body w image_path of
        Inl e \<Rightarrow> (False, str ''Error during decoding: '' @ str_exn e)
      | Inr r \<Rightarrow> r)"

text \<open>How many channel values a successful open makes \<open>decode\<close> read.\<close>

definition decode_reads :: "image \<Rightarrow> nat" where
  "decode_reads img = snd (decode_loop (img_flat img) 0 [])"

section \<open>The conversions as the specification words them\<close>

text \<open>
  The \<open>k\<close>-bit unsigned representation of \<open>n\<close>, most significant bit first, and the
  8-bit representation of a character.
\<close>

definition msb_bits :: "nat \<Rightarrow> nat \<Rightarrow> bits" where
  "msb_bits k n = map (\<lambda>j. odd (n div 2 ^ (k - 1 - j))) [0..<k]"

definition char_bits :: "nat \<Rightarrow> bits" where
  "char_bits c = msb_bits 8 c"

text \<open>
  The consecutive 8-bit groups of a bit stream, in stream order; a trailing group
  shorter than 8 bits is discarded.
\<close>

fun groups8 :: "bits \<Rightarrow> bits list" where
  "groups8 bs = (if length bs < 8 then [] else take 8 bs # groups8 (drop 8 bs))"

declare groups8.simps [simp del]

section \<open>Example carriers\<close>

text \<open>
  An image whose channel values are all \<open>v\<close>, and a world holding one readable file
  where every save succeeds; opening another path raises \<open>FileNotFoundError\<close>.
\<close>

definition solid_image :: "nat \<Rightarrow> nat \<Rightarrow> u8 \<Rightarrow> image" where
  "solid_image wd ht v = \<lparr>img_size = (wd, ht), img_flat = replicate (wd * ht * 3) v\<rparr>"

definition one_file :: "path \<Rightarrow> image \<Rightarrow> world" where
  "one_file p img =
     \<lparr>files = (\<lambda>q. if q = p then Inr img
                      else Inl (Exception (str ''[Errno 2] No such file or directory: '' @
                                           [39] @ str q @ [39]))),
      save_fault = (\<lambda>q. None)\<rparr>"

section \<open>Bit operations on channel values\<close>

lemma lsb_odd: "lsb v = odd v"
  by (simp add: lsb_def and_one_eq mod_2_eq_odd)

lemma lsb_set: "lsb ((v AND 0xFE) OR int_bit b) = b"
  by (simp add: lsb_odd even_or_iff even_and_iff int_bit_def)

lemma keep_high: "((v AND 0xFE) OR int_bit b) AND 0xFE = v AND (0xFE::u8)"
  by (cases b) (simp_all add: int_bit_def bit.conj_disj_distrib2 and.assoc)

section \<open>Binary digits\<close>

lemma DELIMITER_eq: "DELIMITER = [60, 60, 69, 78, 68, 62, 62]"
  by (simp add: DELIMITER_def str_def)

lemma bin_not_Nil: "bin n \<noteq> []"
  by (subst bin.simps) simp

lemma length_bin_pos: "0 < length (bin n)"
  using bin_not_Nil [of n] by simp

lemma length_bin_le: "n < 2 ^ k \<Longrightarrow> 0 < k \<Longrightarrow> length (bin n) \<le> k"
proof (induction n arbitrary: k rule: bin.induct)
  case (1 n)
  show ?case
  proof (cases "n < 2")
    case True
    then show ?thesis using "1.prems" by (subst bin.simps) simp
  next
    case False
    obtain j where k: "k = Suc j" using "1.prems" by (cases k) auto
    have j: "0 < j" using False "1.prems" k by (cases j) auto
    have "n div 2 < 2 ^ j" using "1.prems" k by auto
    from "1.IH" [OF False this j] show ?thesis
      using False k by (subst bin.simps) simp
  qed
qed

lemma length_bin_gt: "2 ^ k \<le> n \<Longrightarrow> k < length (bin n)"
proof (induction n arbitrary: k rule: bin.induct)
  case (1 n)
  show ?case
  proof (cases "n < 2")
    case True
    then have "(2::nat) ^ k < 2 ^ 1" using "1.prems" by simp
    then have "k < 1" by (rule power_less_imp_less_exp [rotated]) simp
    then have "k = 0" by simp
    then show ?thesis using length_bin_pos [of n] by simp
  next
    case False
    show ?thesis
    proof (cases k)
      case 0
      then show ?thesis using length_bin_pos [of n] by simp
    next
      case (Suc j)
      then have "2 ^ j \<le> n div 2" using "1.prems" by auto
      from "1.IH" [OF False this] show ?thesis
        using False Suc by (subst bin.simps) simp
    qed
  qed
qed

lemma length_bin_le_8_iff: "length (bin n) \<le> 8 \<longleftrightarrow> n \<le> 255"
proof
  assume "length (bin n) \<le> 8"
  then have "\<not> 2 ^ 8 \<le> n" using length_bin_gt [of 8 n] by auto
  then show "n \<le> 255" by simp
next
  assume "n \<le> 255"
  then have "n < 2 ^ 8" by simp
  then show "length (bin n) \<le> 8" by (rule length_bin_le) simp
qed

lemma length_format_08b: "length (format_08b n) = max 8 (length (bin n))"
  by (simp add: format_08b_def)

lemma length_format_08b_8: "n \<le> 255 \<Longrightarrow> length (format_08b n) = 8"
  using length_bin_le_8_iff [of n] by (simp add: length_format_08b)

lemma int_base2_snoc: "int_base2 (bs @ [b]) = 2 * int_base2 bs + (if b then 1 else 0)"
  by (simp add: int_base2_def)

lemma int_base2_bin: "int_base2 (bin n) = n"
proof (induction n rule: bin.induct)
  case (1 n)
  show ?case
  proof (cases "n < 2")
    case True
    then have "n = 0 \<or> n = 1" by auto
    then show ?thesis by (subst bin.simps) (auto simp: int_base2_def)
  next
    case False
    have "int_base2 (bin n) = 2 * int_base2 (bin (n div 2)) + (if n mod 2 = 1 then 1 else 0)"
      using False by (subst bin.simps) (simp add: int_base2_snoc)
    also have "\<dots> = 2 * (n div 2) + (if n mod 2 = 1 then 1 else 0)"
      using "1.IH" [OF False] by simp
    also have "\<dots> = n" by presburger
    finally show ?thesis .
  qed
qed

lemma foldl_zeros: "foldl (\<lambda>acc b. 2 * acc + (if b then 1 else 0)) (0::nat) (replicate k False) = 0"
  by (induction k) simp_all

lemma int_base2_pad: "int_base2 (replicate k False @ bs) = int_base2 bs"
  by (simp add: int_base2_def foldl_zeros)

lemma int_base2_format_08b: "int_base2 (format_08b n) = n"
  by (simp add: format_08b_def int_base2_pad int_base2_bin)

section \<open>Grouping into bytes\<close>


lemma groups8_short: "length bs < 8 \<Longrightarrow> groups8 bs = []"
  by (subst groups8.simps) simp

lemma groups8_long: "8 \<le> length bs \<Longrightarrow> groups8 bs = take 8 bs # groups8 (drop 8 bs)"
  by (subst groups8.simps) simp

lemma b2t_loop_groups8:
  "b2t_loop binary i out = out @ map int_base2 (groups8 (drop i binary))"
proof (induction binary i out rule: b2t_loop.induct)
  case (1 binary i out)
  show ?case
  proof (cases "i < length binary")
    case False
    then show ?thesis by (subst b2t_loop.simps) (simp add: groups8_short)
  next
    case True
    note IH = "1.IH" [OF True refl]
    show ?thesis
    proof (cases "8 \<le> length (drop i binary)")
      case long: True
      then have "b2t_loop binary i out =
          b2t_loop binary (i + 8) (out @ [int_base2 (take 8 (drop i binary))])"
        using True by (subst b2t_loop.simps) (simp add: Let_def min_def)
      also have "\<dots> = (out @ [int_base2 (take 8 (drop i binary))]) @
          map int_base2 (groups8 (drop (i + 8) binary))"
        using IH long by (auto simp: min_def split: if_splits)
      also have "\<dots> = out @ map int_base2 (groups8 (drop i binary))"
        using long by (simp add: groups8_long [of "drop i binary"] add.commute)
      finally show ?thesis .
    next
      case short: False
      then have "b2t_loop binary i out = b2t_loop binary (i + 8) out"
        using True by (subst b2t_loop.simps) (simp add: Let_def min_def)
      also have "\<dots> = out @ map int_base2 (groups8 (drop (i + 8) binary))"
        using IH short by (auto simp: min_def split: if_splits)
      also have "\<dots> = out @ map int_base2 (groups8 (drop i binary))"
        using short by (simp add: groups8_short)
      finally show ?thesis .
    qed
  qed
qed

lemma binary_to_text_groups8: "binary_to_text bs = map int_base2 (groups8 bs)"
  by (simp add: binary_to_text_def b2t_loop_groups8)

lemma groups8_append:
  "length a mod 8 = 0 \<Longrightarrow> groups8 (a @ b) = groups8 a @ groups8 b"
proof (induction a rule: groups8.induct)
  case (1 a)
  show ?case
  proof (cases "length a < 8")
    case True
    then have "a = []" using "1.prems" by auto
    then show ?thesis by (simp add: groups8_short)
  next
    case False
    have m: "length (drop 8 a) mod 8 = 0"
      using False "1.prems" le_mod_geq [of 8 "length a"] by simp
    have "groups8 (a @ b) = take 8 a # groups8 (drop 8 a @ b)"
      using False by (simp add: groups8_long [of "a @ b"])
    also have "\<dots> = take 8 a # groups8 (drop 8 a) @ groups8 b"
      using "1.IH" [OF False m] by simp
    also have "\<dots> = groups8 a @ groups8 b"
      using False by (simp add: groups8_long [of a])
    finally show ?thesis .
  qed
qed

lemma groups8_snoc_partial:
  "length (a @ [x]) mod 8 \<noteq> 0 \<Longrightarrow> groups8 (a @ [x]) = groups8 a"
proof (induction a rule: groups8.induct)
  case (1 a)
  show ?case
  proof (cases "length a < 8")
    case True
    then have "length (a @ [x]) < 8" using "1.prems" by (cases "length a = 7") auto
    then show ?thesis using True by (simp add: groups8_short del: length_append)
  next
    case False
    have "length a + 1 - 8 = length a - 8 + 1" using False by simp
    then have m: "length (drop 8 a @ [x]) mod 8 \<noteq> 0"
      using False "1.prems" le_mod_geq [of 8 "length a + 1"] by simp
    have "groups8 (a @ [x]) = take 8 a # groups8 (drop 8 a @ [x])"
      using False by (simp add: groups8_long [of "a @ [x]"])
    also have "\<dots> = take 8 a # groups8 (drop 8 a)"
      using "1.IH" [OF False m] by simp
    also have "\<dots> = groups8 a"
      using False by (simp add: groups8_long [of a])
    finally show ?thesis .
  qed
qed

lemma binary_to_text_append:
  "length a mod 8 = 0 \<Longrightarrow> binary_to_text (a @ b) = binary_to_text a @ binary_to_text b"
  by (simp add: binary_to_text_groups8 groups8_append)

lemma binary_to_text_snoc_partial:
  "length (a @ [x]) mod 8 \<noteq> 0 \<Longrightarrow> binary_to_text (a @ [x]) = binary_to_text a"
  by (simp add: binary_to_text_groups8 groups8_snoc_partial del: length_append)

lemma binary_to_text_Nil: "binary_to_text [] = []"
  by (simp add: binary_to_text_groups8 groups8_short)

lemma binary_to_text_format_08b:
  assumes "c \<le> 255"
  shows "binary_to_text (format_08b c) = [c]"
proof -
  have "groups8 (format_08b c) = [format_08b c]"
    using length_format_08b_8 [OF assms]
    by (simp add: groups8_long [of "format_08b c"] groups8_short)
  then show ?thesis by (simp add: binary_to_text_groups8 int_base2_format_08b)
qed

lemma length_text_to_binary_8: "\<forall>c\<in>set t. c \<le> 255 \<Longrightarrow> length (text_to_binary t) = 8 * length t"
  by (induction t) (simp_all add: text_to_binary_def length_format_08b_8)

lemma text_to_binary_append: "text_to_binary (a @ b) = text_to_binary a @ text_to_binary b"
  by (simp add: text_to_binary_def)

lemma binary_to_text_text_to_binary_append:
  "\<forall>c\<in>set t. c \<le> 255 \<Longrightarrow> binary_to_text (text_to_binary t @ rest) = t @ binary_to_text rest"
proof (induction t)
  case Nil
  then show ?case by (simp add: text_to_binary_def)
next
  case (Cons c t)
  have c: "c \<le> 255" using Cons.prems by simp
  have "binary_to_text (text_to_binary (c # t) @ rest) =
        binary_to_text (format_08b c @ (text_to_binary t @ rest))"
    by (simp add: text_to_binary_def)
  also have "\<dots> = binary_to_text (format_08b c) @ binary_to_text (text_to_binary t @ rest)"
    by (rule binary_to_text_append) (simp add: length_format_08b_8 [OF c])
  also have "\<dots> = c # t @ binary_to_text rest"
    using Cons binary_to_text_format_08b [OF c] by simp
  finally show ?case by simp
qed

section \<open>Substring search and the scan of decode\<close>

lemma contains_Nil_sub: "contains [] s"
  by (cases s) simp_all

lemma contains_length: "contains d s \<Longrightarrow> length d \<le> length s"
  by (induction s) (auto dest: prefix_length_le)

lemma prefix_append_short: "prefix d (x @ y) \<Longrightarrow> length d \<le> length x \<Longrightarrow> prefix d x"
  by (auto simp: prefix_append)

lemma contains_append1: "contains d a \<Longrightarrow> contains d (a @ b)"
proof (induction a)
  case Nil
  then show ?case by (simp add: contains_Nil_sub)
next
  case (Cons c a)
  then show ?case using prefix_prefix [of d "c # a" b] by auto
qed

lemma contains_append2: "contains d b \<Longrightarrow> contains d (a @ b)"
  by (induction a) auto

lemma contains_take: "contains d (take k s) \<Longrightarrow> contains d s"
  using contains_append1 [of d "take k s" "drop k s"] by simp

lemma split0_append1: "contains d a \<Longrightarrow> split0 d (a @ b) = split0 d a"
proof (induction a)
  case Nil
  then show ?case by (cases b) simp_all
next
  case (Cons c a)
  show ?case
  proof (cases "prefix d (c # a)")
    case True
    then have "prefix d (c # a @ b)" using prefix_prefix [of d "c # a" b] by simp
    then show ?thesis using True by simp
  next
    case False
    then have ca: "contains d a" using Cons.prems by simp
    have "\<not> prefix d (c # a @ b)"
    proof
      assume "prefix d (c # a @ b)"
      then have "prefix d ((c # a) @ b)" by simp
      moreover have "length d \<le> length (c # a)" using contains_length [OF ca] by simp
      ultimately have "prefix d (c # a)" by (rule prefix_append_short)
      then show False using False by simp
    qed
    then show ?thesis using False Cons.IH [OF ca] by simp
  qed
qed

lemma decode_loop_fst:
  "\<not> contains DELIMITER (binary_to_text bm) \<Longrightarrow>
   fst (decode_loop vs i bm) =
     (if contains DELIMITER (binary_to_text (bm @ map lsb vs))
      then Some (True, split0 DELIMITER (binary_to_text (bm @ map lsb vs))) else None)"
proof (induction vs arbitrary: i bm)
  case Nil
  then show ?case by simp
next
  case (Cons v vs)
  let ?bm = "bm @ [lsb v]"
  have app: "bm @ map lsb (v # vs) = ?bm @ map lsb vs" by simp
  show ?case
  proof (cases "length ?bm mod 8 = 0")
    case False
    then have same: "binary_to_text ?bm = binary_to_text bm"
      by (rule binary_to_text_snoc_partial)
    have "fst (decode_loop (v # vs) i bm) = fst (decode_loop vs (i + 1) ?bm)"
      using False by (simp add: Let_def)
    also have "\<dots> = (if contains DELIMITER (binary_to_text (?bm @ map lsb vs))
      then Some (True, split0 DELIMITER (binary_to_text (?bm @ map lsb vs))) else None)"
      by (rule Cons.IH) (simp only: same Cons.prems not_False_eq_True)
    finally show ?thesis by (simp only: app)
  next
    case True
    then have ge: "8 \<le> length ?bm" by (simp add: mod_Suc split: if_splits)
    have split: "binary_to_text (?bm @ map lsb vs) =
        binary_to_text ?bm @ binary_to_text (map lsb vs)"
      using True by (rule binary_to_text_append)
    show ?thesis
    proof (cases "contains DELIMITER (binary_to_text ?bm)")
      case found: True
      have "fst (decode_loop (v # vs) i bm) =
          Some (True, split0 DELIMITER (binary_to_text ?bm))"
        using True ge found by (simp add: Let_def del: length_append)
      moreover have "contains DELIMITER (binary_to_text (?bm @ map lsb vs))"
        unfolding split using found by (rule contains_append1)
      moreover have "split0 DELIMITER (binary_to_text (?bm @ map lsb vs)) =
          split0 DELIMITER (binary_to_text ?bm)"
        unfolding split using found by (rule split0_append1)
      ultimately show ?thesis by (simp only: app if_True)
    next
      case notfound: False
      have "fst (decode_loop (v # vs) i bm) = fst (decode_loop vs (i + 1) ?bm)"
        using True ge notfound by (simp add: Let_def del: length_append)
      also have "\<dots> = (if contains DELIMITER (binary_to_text (?bm @ map lsb vs))
        then Some (True, split0 DELIMITER (binary_to_text (?bm @ map lsb vs))) else None)"
        using notfound by (rule Cons.IH)
      finally show ?thesis by (simp only: app)
    qed
  qed
qed

text \<open>The scan never reads more channel values than the buffer holds.\<close>

lemma decode_loop_snd_le: "snd (decode_loop vs i bm) \<le> i + length vs"
proof (induction vs arbitrary: i bm)
  case Nil
  then show ?case by simp
next
  case (Cons v vs)
  have "snd (decode_loop vs (i + 1) (bm @ [lsb v])) \<le> i + 1 + length vs"
    by (rule Cons.IH)
  then show ?case by (simp add: Let_def del: length_append)
qed

lemma decode_loop_snd_None:
  "fst (decode_loop vs i bm) = None \<Longrightarrow> snd (decode_loop vs i bm) = i + length vs"
proof (induction vs arbitrary: i bm)
  case Nil
  then show ?case by simp
next
  case (Cons v vs)
  have IH: "fst (decode_loop vs (i + 1) (bm @ [lsb v])) = None \<Longrightarrow>
      snd (decode_loop vs (i + 1) (bm @ [lsb v])) = i + 1 + length vs"
    by (rule Cons.IH)
  show ?case using Cons.prems IH
    by (auto simp add: Let_def simp del: length_append split: if_splits)
qed

lemma length_DELIMITER: "length DELIMITER = 7"
  by (simp add: DELIMITER_eq)

lemma prefix_nth: "prefix xs ys \<Longrightarrow> i < length xs \<Longrightarrow> ys ! i = xs ! i"
  by (auto simp: prefix_def nth_append)

lemma DELIMITER_no_overlap:
  assumes p: "prefix DELIMITER (x @ DELIMITER @ b)" and x: "x \<noteq> []"
  shows "prefix DELIMITER x"
proof (cases "7 \<le> length x")
  case True
  then show ?thesis using p by (intro prefix_append_short [of _ x "DELIMITER @ b"]) (simp_all add: length_DELIMITER)
next
  case False
  have n: "\<And>i. i < 7 \<Longrightarrow> (x @ DELIMITER @ b) ! i = DELIMITER ! i"
    using prefix_nth [OF p] by (simp add: length_DELIMITER)
  have "0 < length x" "length x < 7" using False x by simp_all
  then consider "length x = 1" | "length x = 2" | "length x = 3"
    | "length x = 4" | "length x = 5" | "length x = 6"
    by linarith
  then have False
  proof cases
    case 1 then show False using n [of 5] by (simp add: nth_append DELIMITER_eq)
  next
    case 2 then show False using n [of 6] by (simp add: nth_append DELIMITER_eq)
  next
    case 3 then show False using n [of 6] by (simp add: nth_append DELIMITER_eq)
  next
    case 4 then show False using n [of 6] by (simp add: nth_append DELIMITER_eq)
  next
    case 5 then show False using n [of 6] by (simp add: nth_append DELIMITER_eq)
  next
    case 6 then show False using n [of 6] by (simp add: nth_append DELIMITER_eq)
  qed
  then show ?thesis ..
qed

lemma contains_DELIMITER_mid: "contains DELIMITER (a @ DELIMITER @ b)"
proof -
  have "contains DELIMITER DELIMITER" by (simp add: DELIMITER_eq)
  then have "contains DELIMITER (DELIMITER @ b)" by (rule contains_append1)
  then show ?thesis by (rule contains_append2)
qed

lemma split0_DELIMITER_first:
  "\<not> contains DELIMITER a \<Longrightarrow> split0 DELIMITER (a @ DELIMITER @ b) = a"
proof (induction a)
  case Nil
  have "prefix DELIMITER (DELIMITER @ b)" by simp
  then show ?case by (cases "DELIMITER @ b") (simp_all add: DELIMITER_eq)
next
  case (Cons c a)
  have np: "\<not> prefix DELIMITER (c # a)" and nc: "\<not> contains DELIMITER a"
    using Cons.prems by simp_all
  have "\<not> prefix DELIMITER ((c # a) @ DELIMITER @ b)"
    using DELIMITER_no_overlap [of "c # a" b] np by blast
  then show ?case using Cons.IH [OF nc] by simp
qed

lemma split0_contains_shorter:
  "contains d s \<Longrightarrow> d \<noteq> [] \<Longrightarrow> length (split0 d s) < length s"
  by (induction s) auto



section \<open>The write loop of encode\<close>

lemma encode_loop_ok:
  "i + length bs \<le> length flat \<Longrightarrow>
   \<exists>out. encode_loop flat i bs = Inr out \<and> length out = length flat \<and>
     (\<forall>j<length flat. out ! j =
        (if i \<le> j \<and> j < i + length bs
         then (flat ! j AND 0xFE) OR int_bit (bs ! (j - i)) else flat ! j))"
proof (induction bs arbitrary: flat i)
  case Nil
  then show ?case by auto
next
  case (Cons b bs)
  let ?flat = "flat[i := (flat ! i AND 0xFE) OR int_bit b]"
  have i: "i < length flat" using Cons.prems by simp
  have "(i + 1) + length bs \<le> length ?flat" using Cons.prems by simp
  from Cons.IH [OF this] obtain out where
    out: "encode_loop ?flat (i + 1) bs = Inr out" and len: "length out = length flat"
    and nth: "\<And>j. j < length flat \<Longrightarrow> out ! j =
        (if i + 1 \<le> j \<and> j < i + 1 + length bs
         then (?flat ! j AND 0xFE) OR int_bit (bs ! (j - (i + 1))) else ?flat ! j)"
    by auto
  have "encode_loop flat i (b # bs) = Inr out" using i out by simp
  moreover have "out ! j =
        (if i \<le> j \<and> j < i + length (b # bs)
         then (flat ! j AND 0xFE) OR int_bit ((b # bs) ! (j - i)) else flat ! j)"
    if j: "j < length flat" for j
  proof (cases "j = i")
    case True
    then show ?thesis using nth [OF j] i by simp
  next
    case False
    then show ?thesis using nth [OF j] by (auto simp: nth_Cons')
  qed
  ultimately show ?case using len by blast
qed

lemma encode_loop_lsb:
  assumes "encode_loop flat 0 bs = Inr out" and "length bs \<le> length flat"
  shows "map lsb out = bs @ drop (length bs) (map lsb flat)"
proof -
  from encode_loop_ok [of 0 bs flat] assms
  have len: "length out = length flat"
    and nth: "\<And>j. j < length flat \<Longrightarrow> out ! j =
        (if j < length bs then (flat ! j AND 0xFE) OR int_bit (bs ! j) else flat ! j)"
    by auto
  show ?thesis
  proof (rule nth_equalityI)
    show "length (map lsb out) = length (bs @ drop (length bs) (map lsb flat))"
      using len assms(2) by simp
  next
    fix j assume "j < length (map lsb out)"
    then have j: "j < length flat" using len by simp
    show "map lsb out ! j = (bs @ drop (length bs) (map lsb flat)) ! j"
      using j len nth [OF j] assms(2) by (simp add: nth_append lsb_set)
  qed
qed

lemma decode_Inr:
  "files w p = Inr img \<Longrightarrow>
   decode w p =
     (if contains DELIMITER (binary_to_text (map lsb (img_flat img)))
      then (True, split0 DELIMITER (binary_to_text (map lsb (img_flat img))))
      else (False, MSG_NOT_FOUND))"
  using decode_loop_fst [of "[]" "img_flat img" 0]
  by (simp add: decode_def decode_body_def binary_to_text_Nil DELIMITER_eq)

lemma DELIMITER_8bit: "\<forall>c\<in>set DELIMITER. c \<le> 255"
  by (simp add: DELIMITER_eq)

lemma encode_success:
  assumes "files w p = Inr img"
    and "length (text_to_binary (T @ DELIMITER)) \<le> length (img_flat img)"
    and "save_fault w out = None"
  shows "\<exists>enc. encode_loop (img_flat img) 0 (text_to_binary (T @ DELIMITER)) = Inr enc \<and>
     encode w p T out =
       ((True, MSG_HIDDEN), w\<lparr>files := (files w)(out := Inr (img\<lparr>img_flat := enc\<rparr>))\<rparr>)"
proof -
  from encode_loop_ok [of 0 "text_to_binary (T @ DELIMITER)" "img_flat img"] assms(2)
  obtain enc where "encode_loop (img_flat img) 0 (text_to_binary (T @ DELIMITER)) = Inr enc"
    by auto
  then show ?thesis using assms
    by (simp add: encode_def encode_body_def Let_def)
qed

lemma roundtrip_core:
  assumes f: "files w p = Inr img"
    and fit: "length (text_to_binary (T @ DELIMITER)) \<le> length (img_flat img)"
    and sv: "save_fault w out = None"
    and T: "text_to_binary (T @ DELIMITER) = text_to_binary (pre @ DELIMITER) @ rest"
    and pre8: "\<forall>c\<in>set pre. c \<le> 255"
    and nc: "\<not> contains DELIMITER pre"
  shows "fst (encode w p T out) = (True, MSG_HIDDEN) \<and>
         decode (snd (encode w p T out)) out = (True, pre)"
proof -
  let ?bits = "text_to_binary (T @ DELIMITER)"
  from encode_success [OF f fit sv] obtain enc where
    enc: "encode_loop (img_flat img) 0 ?bits = Inr enc"
    and e: "encode w p T out =
       ((True, MSG_HIDDEN), w\<lparr>files := (files w)(out := Inr (img\<lparr>img_flat := enc\<rparr>))\<rparr>)"
    by blast
  let ?tail = "drop (length ?bits) (map lsb (img_flat img))"
  have l: "map lsb enc = text_to_binary (pre @ DELIMITER) @ (rest @ ?tail)"
    using encode_loop_lsb [OF enc fit] T by simp
  have "\<forall>c\<in>set (pre @ DELIMITER). c \<le> 255" using pre8 DELIMITER_8bit by auto
  then have t: "binary_to_text (map lsb enc) = pre @ DELIMITER @ binary_to_text (rest @ ?tail)"
    unfolding l by (simp add: binary_to_text_text_to_binary_append)
  have "files (snd (encode w p T out)) out = Inr (img\<lparr>img_flat := enc\<rparr>)"
    by (simp add: e)
  from decode_Inr [OF this]
  have "decode (snd (encode w p T out)) out = (True, pre)"
    by (simp add: t contains_DELIMITER_mid split0_DELIMITER_first [OF nc])
  then show ?thesis by (simp add: e)
qed

section \<open>Fixed-width representation\<close>


lemma msb_bits_Suc: "msb_bits (Suc k) n = msb_bits k (n div 2) @ [odd n]"
proof -
  have "odd (n div 2 ^ (k - j)) = odd (n div 2 div 2 ^ (k - 1 - j))" if "j < k" for j
  proof -
    have "k - j = Suc (k - 1 - j)" using that by simp
    then have "(2::nat) ^ (k - j) = 2 * 2 ^ (k - 1 - j)" by simp
    then show ?thesis by (simp add: div_mult2_eq)
  qed
  then show ?thesis by (simp add: msb_bits_def)
qed

lemma msb_bits_0: "msb_bits 0 n = []"
  by (simp add: msb_bits_def)

lemma pad_bin_msb_bits:
  "n < 2 ^ k \<Longrightarrow> 0 < k \<Longrightarrow> replicate (k - length (bin n)) False @ bin n = msb_bits k n"
proof (induction k arbitrary: n)
  case 0
  then show ?case by simp
next
  case (Suc k)
  show ?case
  proof (cases "n < 2")
    case True
    have z: "msb_bits k 0 = replicate k False"
      by (simp add: msb_bits_def map_replicate_const)
    have "bin n = [odd n]" using True by (subst bin.simps) (auto simp: odd_iff_mod_2_eq_one)
    then show ?thesis using True z
      by (simp add: msb_bits_Suc replicate_append_same)
  next
    case False
    then have k: "0 < k" using Suc.prems by (cases k) auto
    have lt: "n div 2 < 2 ^ k" using Suc.prems by auto
    have b: "bin n = bin (n div 2) @ [odd n]"
      using False by (subst bin.simps) (simp add: odd_iff_mod_2_eq_one)
    have "replicate (Suc k - length (bin n)) False @ bin n =
        (replicate (k - length (bin (n div 2))) False @ bin (n div 2)) @ [odd n]"
      by (simp add: b)
    also have "\<dots> = msb_bits k (n div 2) @ [odd n]"
      using Suc.IH [OF lt k] by simp
    finally show ?thesis by (simp add: msb_bits_Suc)
  qed
qed

lemma format_08b_char_bits: "c \<le> 255 \<Longrightarrow> format_08b c = char_bits c"
  using pad_bin_msb_bits [of c 8] by (simp add: format_08b_def char_bits_def)

lemma msb_bits_int_base2: "msb_bits (length g) (int_base2 g) = g"
proof (induction g rule: rev_induct)
  case Nil
  then show ?case by (simp add: msb_bits_0)
next
  case (snoc b g)
  have d: "int_base2 (g @ [b]) div 2 = int_base2 g"
    by (cases b) (simp_all add: int_base2_snoc)
  have o: "odd (int_base2 (g @ [b])) = b"
    by (cases b) (simp_all add: int_base2_snoc)
  have "msb_bits (length (g @ [b])) (int_base2 (g @ [b])) =
      msb_bits (length g) (int_base2 (g @ [b]) div 2) @ [odd (int_base2 (g @ [b]))]"
    by (simp add: msb_bits_Suc)
  then show ?case by (simp only: d o snoc.IH)
qed

lemma int_base2_bound: "int_base2 g < 2 ^ length g"
proof (induction g rule: rev_induct)
  case Nil
  then show ?case by (simp add: int_base2_def)
next
  case (snoc b g)
  then show ?case by (cases b) (simp_all add: int_base2_snoc)
qed

lemma length_groups8: "g \<in> set (groups8 bs) \<Longrightarrow> length g = 8"
proof (induction bs rule: groups8.induct)
  case (1 bs)
  show ?case
  proof (cases "length bs < 8")
    case True
    then show ?thesis using "1.prems" by (simp add: groups8_short)
  next
    case False
    then have "groups8 bs = take 8 bs # groups8 (drop 8 bs)"
      by (intro groups8_long) simp
    then have "g = take 8 bs \<or> g \<in> set (groups8 (drop 8 bs))"
      using "1.prems" by simp
    then show ?thesis
    proof
      assume "g = take 8 bs"
      then show ?thesis using False by simp
    next
      assume "g \<in> set (groups8 (drop 8 bs))"
      then show ?thesis using False by (rule "1.IH" [rotated])
    qed
  qed
qed

lemma binary_to_text_8bit: "\<forall>c\<in>set (binary_to_text bs). c \<le> 255"
proof -
  have "int_base2 g \<le> 255" if "g \<in> set (groups8 bs)" for g
  proof -
    have "length g = 8" using that by (rule length_groups8)
    then show ?thesis using int_base2_bound [of g] by simp
  qed
  then show ?thesis by (auto simp: binary_to_text_groups8)
qed

lemma char_bits_binary_to_text: "map char_bits (binary_to_text bs) = groups8 bs"
proof -
  have "char_bits (int_base2 g) = g" if "g \<in> set (groups8 bs)" for g
  proof -
    have "length g = 8" using that by (rule length_groups8)
    then show ?thesis using msb_bits_int_base2 [of g] by (simp add: char_bits_def)
  qed
  then show ?thesis by (simp add: binary_to_text_groups8 map_idI)
qed

lemma length_format_08b_ge: "8 \<le> length (format_08b c)"
  by (simp add: length_format_08b)

lemma length_format_08b_gt_iff: "8 < length (format_08b c) \<longleftrightarrow> 255 < c"
  using length_bin_le_8_iff [of c] by (auto simp: length_format_08b)

lemma length_text_to_binary_ge: "8 * length t \<le> length (text_to_binary t)"
proof (induction t)
  case Nil
  then show ?case by (simp add: text_to_binary_def)
next
  case (Cons c t)
  then show ?case using length_format_08b_ge [of c] by (simp add: text_to_binary_def)
qed

lemma length_text_to_binary_eq_iff:
  "length (text_to_binary t) = 8 * length t \<longleftrightarrow> (\<forall>c\<in>set t. c \<le> 255)"
proof (induction t)
  case Nil
  then show ?case by (simp add: text_to_binary_def)
next
  case (Cons c t)
  have l: "length (text_to_binary (c # t)) = length (format_08b c) + length (text_to_binary t)"
    by (simp add: text_to_binary_def)
  show ?case
  proof (cases "c \<le> 255")
    case True
    then show ?thesis using Cons.IH by (simp add: l length_format_08b_8)
  next
    case False
    then have "8 < length (format_08b c)" by (simp add: length_format_08b_gt_iff)
    then have "8 * length (c # t) < length (text_to_binary (c # t))"
      using length_text_to_binary_ge [of t] by (simp add: l)
    then show ?thesis using False by auto
  qed
qed

lemma binary_to_text_inverse_iff:
  "binary_to_text (text_to_binary t) = t \<longleftrightarrow> (\<forall>c\<in>set t. c \<le> 255)"
proof
  assume "binary_to_text (text_to_binary t) = t"
  then show "\<forall>c\<in>set t. c \<le> 255" using binary_to_text_8bit [of "text_to_binary t"] by simp
next
  assume "\<forall>c\<in>set t. c \<le> 255"
  then show "binary_to_text (text_to_binary t) = t"
    using binary_to_text_text_to_binary_append [of t "[]"] by (simp add: binary_to_text_Nil)
qed

section \<open>The wrappers, and prefixes of the scanned stream\<close>

lemma get_max_capacity_Inr:
  "files w p = Inr img \<Longrightarrow> img_size img = (wd, ht) \<Longrightarrow>
   get_max_capacity w p = (int wd * int ht * 3 - 56) div 8"
  by (simp add: get_max_capacity_def length_DELIMITER)

lemma encode_too_small:
  "files w p = Inr img \<Longrightarrow>
   length (img_flat img) < length (text_to_binary (T @ DELIMITER)) \<Longrightarrow>
   encode w p T out = ((False, MSG_TOO_SMALL), w)"
  by (simp add: encode_def encode_body_def Let_def)

lemma encode_True_inv:
  assumes "files w p = Inr img" and "encode w p T out = ((True, m), w')"
  shows "length (text_to_binary (T @ DELIMITER)) \<le> length (img_flat img) \<and>
         save_fault w out = None"
  using assms
  by (auto simp: encode_def encode_body_def Let_def split: if_splits sum.splits option.splits)

lemma prefix_split0: "prefix (split0 d s) s"
  by (induction s) auto

lemma split0_no_contains: "d \<noteq> [] \<Longrightarrow> \<not> contains d (split0 d s)"
proof (induction s)
  case Nil
  then show ?case by simp
next
  case (Cons c s)
  show ?case
  proof (cases "prefix d (c # s)")
    case True
    then show ?thesis using Cons.prems by simp
  next
    case False
    have "\<not> prefix d (c # split0 d s)"
    proof
      assume "prefix d (c # split0 d s)"
      moreover have "prefix (c # split0 d s) (c # s)" by (simp add: prefix_split0)
      ultimately have "prefix d (c # s)" by (rule prefix_order.trans)
      then show False using False by simp
    qed
    then show ?thesis using False Cons by simp
  qed
qed

lemma split0_decompose:
  "contains d s \<Longrightarrow> d \<noteq> [] \<Longrightarrow> \<exists>rest. s = split0 d s @ d @ rest"
proof (induction s)
  case Nil
  then show ?case by simp
next
  case (Cons c s)
  show ?case
  proof (cases "prefix d (c # s)")
    case True
    then show ?thesis by (auto simp: prefix_def)
  next
    case False
    then have "contains d s" using Cons.prems by simp
    from Cons.IH [OF this Cons.prems(2)] obtain rest where "s = split0 d s @ d @ rest" ..
    then have "c # s = split0 d (c # s) @ d @ rest" using False by simp
    then show ?thesis ..
  qed
qed

lemma DELIMITER_not_Nil: "DELIMITER \<noteq> []"
  by (simp add: DELIMITER_eq)

lemma groups8_take: "groups8 (take k bs) = take (k div 8) (groups8 bs)"
proof (induction bs arbitrary: k rule: groups8.induct)
  case (1 bs)
  show ?case
  proof (cases "length bs < 8")
    case True
    then show ?thesis by (simp add: groups8_short)
  next
    case long: False
    then have g: "groups8 bs = take 8 bs # groups8 (drop 8 bs)"
      by (intro groups8_long) simp
    show ?thesis
    proof (cases "k < 8")
      case True
      then show ?thesis by (simp add: groups8_short)
    next
      case False
      then have d: "k div 8 = Suc ((k - 8) div 8)" by (simp add: le_div_geq)
      have "8 \<le> length (take k bs)" using False long by simp
      then have "groups8 (take k bs) = take 8 (take k bs) # groups8 (drop 8 (take k bs))"
        by (rule groups8_long)
      also have "take 8 (take k bs) = take 8 bs" using False by (simp add: min_def)
      also have "drop 8 (take k bs) = take (k - 8) (drop 8 bs)" by (simp add: drop_take)
      also have "groups8 (take (k - 8) (drop 8 bs)) = take ((k - 8) div 8) (groups8 (drop 8 bs))"
        using long by (rule "1.IH")
      finally show ?thesis by (simp only: g d take_Suc_Cons)
    qed
  qed
qed

lemma binary_to_text_take:
  "binary_to_text (take k bs) = take (k div 8) (binary_to_text bs)"
  by (simp add: binary_to_text_groups8 groups8_take take_map)

lemma no_prefix_iff:
  "(\<forall>k\<le>length bs. \<not> contains DELIMITER (binary_to_text (take k bs))) \<longleftrightarrow>
   \<not> contains DELIMITER (binary_to_text bs)"
proof
  assume "\<forall>k\<le>length bs. \<not> contains DELIMITER (binary_to_text (take k bs))"
  then have "\<not> contains DELIMITER (binary_to_text (take (length bs) bs))" by blast
  then show "\<not> contains DELIMITER (binary_to_text bs)" by simp
next
  assume n: "\<not> contains DELIMITER (binary_to_text bs)"
  show "\<forall>k\<le>length bs. \<not> contains DELIMITER (binary_to_text (take k bs))"
    using n contains_take [of DELIMITER _ "binary_to_text bs"]
    by (auto simp: binary_to_text_take)
qed

lemma encode_True_world:
  assumes "files w p = Inr img" and "encode w p T out = ((True, m), w')"
  shows "\<exists>enc. encode_loop (img_flat img) 0 (text_to_binary (T @ DELIMITER)) = Inr enc \<and>
           m = MSG_HIDDEN \<and>
           w' = w\<lparr>files := (files w)(out := Inr (img\<lparr>img_flat := enc\<rparr>))\<rparr>"
proof -
  from encode_True_inv [OF assms]
  have fit: "length (text_to_binary (T @ DELIMITER)) \<le> length (img_flat img)"
    and sv: "save_fault w out = None" by simp_all
  from encode_success [OF assms(1) fit sv] assms(2) show ?thesis by auto
qed


lemma length_groups8_div: "length (groups8 bs) = length bs div 8"
proof (induction bs rule: groups8.induct)
  case (1 bs)
  show ?case
  proof (cases "length bs < 8")
    case True
    then show ?thesis by (simp add: groups8_short)
  next
    case False
    then have "groups8 bs = take 8 bs # groups8 (drop 8 bs)"
      by (intro groups8_long) simp
    then have "length (groups8 bs) = Suc ((length bs - 8) div 8)"
      using "1.IH" [OF False] by simp
    then show ?thesis using False by (simp add: le_div_geq)
  qed
qed


lemma capacity_exceeded_bits:
  assumes "files w p = Inr img" and "wf_image img" and "get_max_capacity w p < int (length T)"
  shows "length (img_flat img) < 8 * (length T + 7)"
proof -
  obtain wd ht where sz: "img_size img = (wd, ht)" by (cases "img_size img")
  define n where "n = wd * ht * 3"
  have len: "length (img_flat img) = n"
    using assms(2) sz by (simp add: wf_image_def n_def)
  have "get_max_capacity w p = (int n - 56) div 8"
    using get_max_capacity_Inr [OF assms(1) sz] by (simp add: n_def)
  then have "(int n - 56) div 8 < int (length T)" using assms(3) by simp
  then have "int n - 56 < 8 * int (length T)" by linarith
  then have "int n < int (8 * (length T + 7))" by simp
  then have "n < 8 * (length T + 7)" by (simp only: of_nat_less_iff)
  then show ?thesis by (simp only: len)
qed

section \<open>The claims\<close>

subsection \<open>Capacity\<close>

text \<open>
  Claim C2, as amended. For a readable carrier of width \<open>wd\<close> and height \<open>ht\<close> the
  capacity calculator returns the floor quotient \<open>(wd * ht * 3 - 56) // 8\<close> and does
  not clamp it: the result equals \<open>max(0, (wd * ht * 3 - 56) // 8)\<close> exactly when the
  carrier has at least 56 channel values, and is negative otherwise.
\<close>

theorem capacity_is_floor_quotient:
  assumes "files w p = Inr img" and "img_size img = (wd, ht)"
  shows "get_max_capacity w p = (int wd * int ht * 3 - 56) div 8 \<and>
         (get_max_capacity w p = max 0 ((int wd * int ht * 3 - 56) div 8)
            \<longleftrightarrow> 56 \<le> wd * ht * 3) \<and>
         (wd * ht * 3 < 56 \<longrightarrow> get_max_capacity w p < 0)"
proof -
  have c: "get_max_capacity w p = (int wd * int ht * 3 - 56) div 8"
    using assms by (rule get_max_capacity_Inr)
  have i: "int (wd * ht * 3) = int wd * int ht * 3" by simp
  have "(int wd * int ht * 3 - 56) div 8 < 0 \<longleftrightarrow> int (wd * ht * 3) - 56 < 0"
    unfolding i by (rule pos_imp_zdiv_neg_iff) simp
  then have "(int wd * int ht * 3 - 56) div 8 < 0 \<longleftrightarrow> wd * ht * 3 < 56"
    by linarith
  then show ?thesis unfolding c by (auto simp: max_def)
qed

text \<open>The 10 by 10 carrier of the specification's example: capacity 30.\<close>

theorem capacity_is_floor_quotient_witness:
  "get_max_capacity (one_file ''carrier.png'' (solid_image 10 10 0)) ''carrier.png'' = 30 \<and>
   get_max_capacity (one_file ''carrier.png'' (solid_image 10 10 0)) ''carrier.png'' =
     max 0 ((int 10 * int 10 * 3 - 56) div 8)"
  using capacity_is_floor_quotient
    [of "one_file ''carrier.png'' (solid_image 10 10 0)" "''carrier.png''" "solid_image 10 10 0" 10 10]
  by (simp add: one_file_def solid_image_def)

text \<open>
  Claim C2 as stated fails on a 1 by 1 carrier: \<open>(3 - 56) // 8\<close> is \<open>-7\<close>, and that is what
  is returned, not 0.
\<close>

theorem capacity_clamp_counterexample:
  "get_max_capacity (one_file ''tiny.png'' (solid_image 1 1 0)) ''tiny.png'' = - 7 \<and>
   get_max_capacity (one_file ''tiny.png'' (solid_image 1 1 0)) ''tiny.png'' \<noteq>
     max 0 ((int 1 * int 1 * 3 - 56) div 8)"
  by (simp add: get_max_capacity_def one_file_def solid_image_def length_DELIMITER)

subsection \<open>Oversized payloads\<close>

text \<open>
  Claim C3. When the bit string of the payload and the terminator is longer than the
  flattened buffer (in particular when \<open>8 * (len(payload) + 7)\<close> is, or when the payload
  is longer than the capacity of a carrier with three channel values per pixel),
  \<open>encode\<close> returns the failure flag with the too-small message, and the world is as it
  was: no channel was written and no output file was produced.
\<close>

theorem encode_rejects_oversized:
  assumes "files w p = Inr img"
    and "length (img_flat img) < length (text_to_binary (T @ DELIMITER)) \<or>
         length (img_flat img) < 8 * (length T + 7) \<or>
         wf_image img \<and> get_max_capacity w p < int (length T)"
  shows "encode w p T out = ((False, MSG_TOO_SMALL), w)"
proof -
  have "8 * (length T + 7) \<le> length (text_to_binary (T @ DELIMITER))"
    using length_text_to_binary_ge [of "T @ DELIMITER"] by (simp add: length_DELIMITER)
  then have "length (img_flat img) < length (text_to_binary (T @ DELIMITER))"
    using assms(2) capacity_exceeded_bits [OF assms(1), of T] by auto
  with assms(1) show ?thesis by (rule encode_too_small)
qed

text \<open>A one-character payload on a 1 by 1 carrier (3 channel values, 64 bits needed).\<close>

theorem encode_rejects_oversized_witness:
  "encode (one_file ''tiny.png'' (solid_image 1 1 0)) ''tiny.png'' (str ''A'') ''out.png'' =
     ((False, MSG_TOO_SMALL), one_file ''tiny.png'' (solid_image 1 1 0))"
  using encode_rejects_oversized
    [of "one_file ''tiny.png'' (solid_image 1 1 0)" "''tiny.png''" "solid_image 1 1 0" "str ''A''" "''out.png''"]
  by (simp add: one_file_def solid_image_def str_def)

subsection \<open>What encode writes\<close>

text \<open>
  Claim C4. When \<open>encode\<close> accepts a buffer and a payload, the written image has the
  dimensions and length of the input; each of its channel values at an index below the
  length of the bit string agrees with the input value on the bits of \<open>0xFE\<close>, and each
  channel value at or beyond that length equals the input value.
\<close>

theorem encode_changes_only_lsb:
  assumes "files w p = Inr img" and "encode w p T out = ((True, m), w')"
  shows "\<exists>img'. files w' out = Inr img' \<and> img_size img' = img_size img \<and>
           length (img_flat img') = length (img_flat img) \<and>
           (\<forall>i<length (img_flat img).
              (i < length (text_to_binary (T @ DELIMITER)) \<longrightarrow>
                 img_flat img' ! i AND 0xFE = img_flat img ! i AND 0xFE) \<and>
              (length (text_to_binary (T @ DELIMITER)) \<le> i \<longrightarrow>
                 img_flat img' ! i = img_flat img ! i))"
proof -
  let ?bits = "text_to_binary (T @ DELIMITER)"
  from encode_True_world [OF assms] obtain enc where
    enc: "encode_loop (img_flat img) 0 ?bits = Inr enc"
    and w': "w' = w\<lparr>files := (files w)(out := Inr (img\<lparr>img_flat := enc\<rparr>))\<rparr>"
    by blast
  from encode_True_inv [OF assms]
  have fit: "0 + length ?bits \<le> length (img_flat img)" by simp
  from encode_loop_ok [OF fit] enc
  have len: "length enc = length (img_flat img)"
    and nth: "\<And>j. j < length (img_flat img) \<Longrightarrow> enc ! j =
        (if j < length ?bits then (img_flat img ! j AND 0xFE) OR int_bit (?bits ! j)
         else img_flat img ! j)"
    by auto
  have "files w' out = Inr (img\<lparr>img_flat := enc\<rparr>)" by (simp add: w')
  moreover have "\<forall>i<length (img_flat img).
      (i < length ?bits \<longrightarrow> enc ! i AND 0xFE = img_flat img ! i AND 0xFE) \<and>
      (length ?bits \<le> i \<longrightarrow> enc ! i = img_flat img ! i)"
    using nth by (simp add: keep_high)
  ultimately show ?thesis using len by simp
qed

text \<open>One character on an all-255 carrier of 5 by 5 pixels: 64 bits are written.\<close>

theorem encode_changes_only_lsb_witness:
  "\<exists>img'. files (snd (encode (one_file ''in.png'' (solid_image 5 5 255)) ''in.png''
                      (str ''A'') ''out.png'')) ''out.png'' = Inr img' \<and>
     length (img_flat img') = 75 \<and>
     img_flat img' ! 0 AND 0xFE = 0xFE \<and> img_flat img' ! 64 = 255"
proof -
  let ?w = "one_file ''in.png'' (solid_image 5 5 255)"
  have f: "files ?w ''in.png'' = Inr (solid_image 5 5 255)" by (simp add: one_file_def)
  have l: "length (text_to_binary (str ''A'' @ DELIMITER)) = 64"
    by (simp add: length_text_to_binary_8 DELIMITER_eq str_def)
  have "fst (encode ?w ''in.png'' (str ''A'') ''out.png'') = (True, MSG_HIDDEN)"
    using encode_success [OF f, of "str ''A''" "''out.png''"] l
    by (auto simp: one_file_def solid_image_def)
  then have e: "encode ?w ''in.png'' (str ''A'') ''out.png'' =
      ((True, MSG_HIDDEN), snd (encode ?w ''in.png'' (str ''A'') ''out.png''))"
    by (simp add: prod_eq_iff)
  from encode_changes_only_lsb [OF f e] show ?thesis
    by (auto simp: l solid_image_def)
qed

subsection \<open>Decoding a carrier without a message\<close>

text \<open>
  Claim C6. For a readable buffer whose low-order bits, grouped into 8-bit characters,
  contain \<open><<END>>\<close> at no prefix, \<open>decode\<close> returns the failure flag with the
  no-message text, after reading every channel value of the buffer once: the scan is a
  structural recursion over the buffer and its number of iterations is the buffer length.
\<close>

theorem decode_no_message:
  assumes "files w p = Inr img"
    and "\<forall>k\<le>length (img_flat img).
           \<not> contains DELIMITER (binary_to_text (take k (map lsb (img_flat img))))"
  shows "decode w p = (False, MSG_NOT_FOUND) \<and> decode_reads img = length (img_flat img)"
proof -
  have n: "\<not> contains DELIMITER (binary_to_text (map lsb (img_flat img)))"
    using assms(2) no_prefix_iff [of "map lsb (img_flat img)"] by simp
  have "\<not> contains DELIMITER (binary_to_text [])"
    by (simp add: binary_to_text_Nil DELIMITER_eq)
  from decode_loop_fst [OF this, of "img_flat img" 0] n
  have "fst (decode_loop (img_flat img) 0 []) = None" by simp
  then have "snd (decode_loop (img_flat img) 0 []) = 0 + length (img_flat img)"
    by (rule decode_loop_snd_None)
  then have "decode_reads img = length (img_flat img)" by (simp add: decode_reads_def)
  moreover have "decode w p = (False, MSG_NOT_FOUND)"
    using decode_Inr [OF assms(1)] n by simp
  ultimately show ?thesis by simp
qed

text \<open>An all-zero carrier of 19 by 1 pixels.\<close>

theorem decode_no_message_witness:
  "decode (one_file ''plain.png'' (solid_image 19 1 0)) ''plain.png'' = (False, MSG_NOT_FOUND) \<and>
   decode_reads (solid_image 19 1 0) = 57"
proof -
  let ?w = "one_file ''plain.png'' (solid_image 19 1 0)"
  have f: "files ?w ''plain.png'' = Inr (solid_image 19 1 0)" by (simp add: one_file_def)
  have "\<not> contains DELIMITER (binary_to_text (map lsb (img_flat (solid_image 19 1 0))))"
    by code_simp
  then have "\<forall>k\<le>length (img_flat (solid_image 19 1 0)).
      \<not> contains DELIMITER (binary_to_text (take k (map lsb (img_flat (solid_image 19 1 0)))))"
    using no_prefix_iff [of "map lsb (img_flat (solid_image 19 1 0))"] by simp
  from decode_no_message [OF f this] show ?thesis by (simp add: solid_image_def)
qed

subsection \<open>Text and bit strings\<close>

text \<open>
  Claim C7. For a text whose code points are all at most 255, \<open>_text_to_binary\<close> emits for
  each character, in input order, its 8-bit representation with the most significant
  bit first, so 8 bits per character; \<open>_binary_to_text\<close> turns each consecutive 8-bit
  group of any bit string \<open>bs\<close> into the character with that representation and drops a
  shorter trailing group; and converting the text to bits and back is the identity.
\<close>

theorem text_binary_roundtrip:
  assumes "\<forall>c\<in>set t. c \<le> 255"
  shows "text_to_binary t = concat (map char_bits t) \<and>
         length (text_to_binary t) = 8 * length t \<and>
         map char_bits (binary_to_text bs) = groups8 bs \<and>
         (\<forall>c\<in>set (binary_to_text bs). c \<le> 255) \<and>
         length (binary_to_text bs) = length bs div 8 \<and>
         binary_to_text (text_to_binary t) = t"
proof -
  have "map format_08b t = map char_bits t"
    using assms by (simp add: format_08b_char_bits)
  then have "text_to_binary t = concat (map char_bits t)"
    unfolding text_to_binary_def by (rule arg_cong)
  moreover have "length (text_to_binary t) = 8 * length t"
    using assms by (rule length_text_to_binary_8)
  moreover have "binary_to_text (text_to_binary t) = t"
    using assms by (simp add: binary_to_text_inverse_iff)
  moreover have "length (binary_to_text bs) = length bs div 8"
    by (simp add: binary_to_text_groups8 length_groups8_div)
  ultimately show ?thesis
    using char_bits_binary_to_text [of bs] binary_to_text_8bit [of bs] by simp
qed

text \<open>The text \<open>Hi\<close>, and its bits followed by three more.\<close>

theorem text_binary_roundtrip_witness:
  "text_to_binary (str ''Hi'') = char_bits 72 @ char_bits 105 \<and>
   length (text_to_binary (str ''Hi'')) = 16 \<and>
   length (binary_to_text (text_to_binary (str ''Hi'') @ [True, False, True])) = 2 \<and>
   binary_to_text (text_to_binary (str ''Hi'')) = str ''Hi''"
proof -
  have h: "\<forall>c\<in>set (str ''Hi''). c \<le> 255" by (simp add: str_def)
  note r = text_binary_roundtrip [OF h, of "text_to_binary (str ''Hi'') @ [True, False, True]"]
  have a: "text_to_binary (str ''Hi'') = concat (map char_bits (str ''Hi''))"
    and b: "length (text_to_binary (str ''Hi'')) = 8 * length (str ''Hi'')"
    and c: "length (binary_to_text (text_to_binary (str ''Hi'') @ [True, False, True])) =
      length (text_to_binary (str ''Hi'') @ [True, False, True]) div 8"
    and d: "binary_to_text (text_to_binary (str ''Hi'')) = str ''Hi''"
    using r by blast+
  have "concat (map char_bits (str ''Hi'')) = char_bits 72 @ char_bits 105"
    by (simp add: str_def)
  moreover have "8 * length (str ''Hi'') = 16" by (simp add: str_def)
  moreover have "length (text_to_binary (str ''Hi'') @ [True, False, True]) div 8 = 2"
    using b by (simp add: str_def)
  ultimately show ?thesis using a b c d by (simp only: simp_thms)
qed

text \<open>
  Claim C9. A payload with a character above 255 exists for which \<open>_text_to_binary\<close>
  emits more than 8 bits for that character, the bit string is longer than 8 times the
  payload length, and \<open>_binary_to_text\<close> does not give the payload back. The \<open>08b\<close>
  format pads to at least 8 bits and never truncates, and a text \<open>t\<close> gets exactly 8 bits
  per character exactly when all its code points are at most 255; the same condition
  decides whether the conversion back returns \<open>t\<close>.
\<close>

theorem text_to_binary_wide_characters:
  "(\<exists>u. (\<exists>c\<in>set u. 255 < c \<and> 8 < length (format_08b c)) \<and>
        8 * length u < length (text_to_binary u) \<and>
        binary_to_text (text_to_binary u) \<noteq> u) \<and>
   8 \<le> length (format_08b c) \<and> int_base2 (format_08b c) = c \<and>
   (8 < length (format_08b c) \<longleftrightarrow> 255 < c) \<and>
   (length (text_to_binary t) = 8 * length t \<longleftrightarrow> (\<forall>c\<in>set t. c \<le> 255)) \<and>
   (binary_to_text (text_to_binary t) = t \<longleftrightarrow> (\<forall>c\<in>set t. c \<le> 255))"
proof -
  have w: "\<not> (\<forall>c\<in>set [256::nat]. c \<le> 255)" by simp
  have "length (text_to_binary [256]) \<noteq> 8 * length [256::nat]"
    using w by (simp only: length_text_to_binary_eq_iff not_False_eq_True)
  then have "8 * length [256::nat] < length (text_to_binary [256])"
    using length_text_to_binary_ge [of "[256]"] by linarith
  moreover have "binary_to_text (text_to_binary [256]) \<noteq> [256]"
    using w by (simp only: binary_to_text_inverse_iff not_False_eq_True)
  moreover have "\<exists>c\<in>set [256::nat]. 255 < c \<and> 8 < length (format_08b c)"
    by (simp add: length_format_08b_gt_iff)
  ultimately have "\<exists>u. (\<exists>c\<in>set u. 255 < c \<and> 8 < length (format_08b c)) \<and>
        8 * length u < length (text_to_binary u) \<and>
        binary_to_text (text_to_binary u) \<noteq> u"
    by blast
  then show ?thesis
    by (simp only: length_format_08b_ge int_base2_format_08b length_format_08b_gt_iff
        length_text_to_binary_eq_iff binary_to_text_inverse_iff simp_thms)
qed

text \<open>The two-character text of \<open>H\<close> and U+0100: 17 bits, read back as \<open>H\<close> and U+0080.\<close>

theorem text_to_binary_wide_characters_witness:
  "length (text_to_binary [72, 256]) = 17 \<and>
   length (text_to_binary [72, 256]) \<noteq> 8 * length [72, 256 :: nat] \<and>
   binary_to_text (text_to_binary [72, 256]) = [72, 128] \<and>
   binary_to_text (text_to_binary [72, 256]) \<noteq> [72, 256]"
proof -
  note r = text_to_binary_wide_characters [of 256 "[72, 256]"]
  have "length (text_to_binary [72, 256]) = 8 * length [72, 256 :: nat] \<longleftrightarrow>
      (\<forall>c\<in>set [72, 256 :: nat]. c \<le> 255)"
    and "binary_to_text (text_to_binary [72, 256]) = [72, 256] \<longleftrightarrow>
      (\<forall>c\<in>set [72, 256 :: nat]. c \<le> 255)"
    using r by blast+
  then have "length (text_to_binary [72, 256]) \<noteq> 8 * length [72, 256 :: nat]"
    and "binary_to_text (text_to_binary [72, 256]) \<noteq> [72, 256]"
    by simp_all
  moreover have "length (text_to_binary [72, 256]) = 17" by code_simp
  moreover have "binary_to_text (text_to_binary [72, 256]) = [72, 128]" by code_simp
  ultimately show ?thesis by (simp only: simp_thms)
qed

subsection \<open>Faults\<close>



subsection \<open>Round trip\<close>

text \<open>
  Claim C1, as amended. For a well-formed readable carrier of capacity at least 1 and a
  payload \<open>T\<close> no longer than the capacity, whose code points are all at most 255 and
  which does not contain \<open><<END>>\<close>, when the save succeeds \<open>encode\<close> reports success and
  \<open>decode\<close> of the written file returns \<open>(True, T)\<close>.
\<close>

theorem encode_decode_roundtrip:
  assumes "files w p = Inr img" and "wf_image img"
    and "1 \<le> get_max_capacity w p" and "int (length T) \<le> get_max_capacity w p"
    and "\<forall>c\<in>set T. c \<le> 255" and "\<not> contains DELIMITER T"
    and "save_fault w out = None"
  shows "fst (encode w p T out) = (True, MSG_HIDDEN) \<and>
         decode (snd (encode w p T out)) out = (True, T)"
proof -
  obtain wd ht where sz: "img_size img = (wd, ht)" by (cases "img_size img")
  have cap: "get_max_capacity w p = (int wd * int ht * 3 - 56) div 8"
    using assms(1) sz by (rule get_max_capacity_Inr)
  have len: "length (img_flat img) = wd * ht * 3"
    using assms(2) sz by (simp add: wf_image_def)
  define n where "n = wd * ht * 3"
  have "int (length T) \<le> (int n - 56) div 8"
    using assms(4) cap by (simp add: n_def)
  then have "8 * int (length T) + 56 \<le> int n"
    by linarith
  then have "int (8 * (length T + 7)) \<le> int n"
    by simp
  then have "8 * (length T + 7) \<le> n"
    by (simp only: of_nat_le_iff)
  then have "8 * (length T + 7) \<le> length (img_flat img)"
    by (simp only: len n_def)
  moreover have "\<forall>c\<in>set (T @ DELIMITER). c \<le> 255"
    using assms(5) DELIMITER_8bit by auto
  then have "length (text_to_binary (T @ DELIMITER)) = 8 * (length T + 7)"
    by (simp add: length_text_to_binary_8 length_DELIMITER)
  ultimately have fit: "length (text_to_binary (T @ DELIMITER)) \<le> length (img_flat img)"
    by simp
  have "text_to_binary (T @ DELIMITER) = text_to_binary (T @ DELIMITER) @ []" by simp
  from roundtrip_core [OF assms(1) fit assms(7) this assms(5) assms(6)]
  show ?thesis .
qed

text \<open>The text \<open>Hi\<close> on a 5 by 5 carrier (75 channel values, capacity 2).\<close>

theorem encode_decode_roundtrip_witness:
  "get_max_capacity (one_file ''in.png'' (solid_image 5 5 255)) ''in.png'' = 2 \<and>
   fst (encode (one_file ''in.png'' (solid_image 5 5 255)) ''in.png'' (str ''Hi'') ''out.png'') =
     (True, MSG_HIDDEN) \<and>
   decode (snd (encode (one_file ''in.png'' (solid_image 5 5 255)) ''in.png'' (str ''Hi'')
     ''out.png'')) ''out.png'' = (True, str ''Hi'')"
proof -
  let ?w = "one_file ''in.png'' (solid_image 5 5 255)"
  have f: "files ?w ''in.png'' = Inr (solid_image 5 5 255)" by (simp add: one_file_def)
  have wf: "wf_image (solid_image 5 5 255)" by (simp add: wf_image_def solid_image_def)
  have cap: "get_max_capacity ?w ''in.png'' = 2"
    by (simp add: get_max_capacity_def one_file_def solid_image_def length_DELIMITER)
  have c1: "1 \<le> get_max_capacity ?w ''in.png''"
    and c2: "int (length (str ''Hi'')) \<le> get_max_capacity ?w ''in.png''"
    by (simp_all add: cap str_def)
  have t8: "\<forall>c\<in>set (str ''Hi''). c \<le> 255" by (simp add: str_def)
  have nc: "\<not> contains DELIMITER (str ''Hi'')" by (simp add: str_def DELIMITER_eq)
  have sv: "save_fault ?w ''out.png'' = None" by (simp add: one_file_def)
  from encode_decode_roundtrip [OF f wf c1 c2 t8 nc sv] cap show ?thesis by (simp only: simp_thms)
qed

text \<open>
  Claim C1 as stated fails for a payload that contains the terminator: on the 10 by 10
  carrier (capacity 30) the 14-character payload \<open>hi<<END>>there\<close> is encoded, and
  decoding returns \<open>hi\<close>.
\<close>

theorem encode_decode_roundtrip_counterexample:
  "1 \<le> get_max_capacity (one_file ''in.png'' (solid_image 10 10 0)) ''in.png'' \<and>
   int (length (str ''hi<<END>>there'')) \<le>
     get_max_capacity (one_file ''in.png'' (solid_image 10 10 0)) ''in.png'' \<and>
   fst (encode (one_file ''in.png'' (solid_image 10 10 0)) ''in.png''
     (str ''hi<<END>>there'') ''out.png'') = (True, MSG_HIDDEN) \<and>
   decode (snd (encode (one_file ''in.png'' (solid_image 10 10 0)) ''in.png''
     (str ''hi<<END>>there'') ''out.png'')) ''out.png'' = (True, str ''hi'') \<and>
   decode (snd (encode (one_file ''in.png'' (solid_image 10 10 0)) ''in.png''
     (str ''hi<<END>>there'') ''out.png'')) ''out.png'' \<noteq> (True, str ''hi<<END>>there'')"
proof -
  let ?w = "one_file ''in.png'' (solid_image 10 10 0)"
  let ?T = "str ''hi<<END>>there''"
  have f: "files ?w ''in.png'' = Inr (solid_image 10 10 0)" by (simp add: one_file_def)
  have cap: "get_max_capacity ?w ''in.png'' = 30"
    by (simp add: get_max_capacity_def one_file_def solid_image_def length_DELIMITER)
  have T: "?T = str ''hi'' @ DELIMITER @ str ''there''"
    by (simp add: str_def DELIMITER_def)
  have t8: "\<forall>c\<in>set (?T @ DELIMITER). c \<le> 255" by (simp add: str_def DELIMITER_def)
  have fit: "length (text_to_binary (?T @ DELIMITER)) \<le> length (img_flat (solid_image 10 10 0))"
    by (simp add: length_text_to_binary_8 [OF t8]) (simp add: str_def DELIMITER_def solid_image_def)
  have sv: "save_fault ?w ''out.png'' = None" by (simp add: one_file_def)
  have split: "text_to_binary (?T @ DELIMITER) =
      text_to_binary (str ''hi'' @ DELIMITER) @ text_to_binary (str ''there'' @ DELIMITER)"
    by (simp add: T text_to_binary_append)
  have p8: "\<forall>c\<in>set (str ''hi''). c \<le> 255" by (simp add: str_def)
  have nc: "\<not> contains DELIMITER (str ''hi'')" by (simp add: str_def DELIMITER_eq)
  from roundtrip_core [OF f fit sv split p8 nc]
  have "fst (encode ?w ''in.png'' ?T ''out.png'') = (True, MSG_HIDDEN)"
    and d: "decode (snd (encode ?w ''in.png'' ?T ''out.png'')) ''out.png'' = (True, str ''hi'')"
    by simp_all
  moreover have "(True, str ''hi'') \<noteq> (True, ?T)" by (simp add: str_def)
  moreover have "1 \<le> get_max_capacity ?w ''in.png''"
    and "int (length ?T) \<le> get_max_capacity ?w ''in.png''"
    by (simp_all add: cap str_def)
  ultimately show ?thesis by (simp only: simp_thms)
qed

text \<open>
  Claim C5, as amended. For a payload \<open>T\<close> that contains \<open><<END>>\<close> and whose characters
  before the first occurrence have code points at most 255, when \<open>encode\<close> accepts it,
  \<open>decode\<close> of the written file succeeds with the part of \<open>T\<close> before the first
  \<open><<END>>\<close>, which is shorter than \<open>T\<close>.
\<close>

theorem decode_stops_at_first_terminator:
  assumes "files w p = Inr img" and "contains DELIMITER T"
    and "\<forall>c\<in>set (split0 DELIMITER T). c \<le> 255"
    and "encode w p T out = ((True, m), w')"
  shows "decode w' out = (True, split0 DELIMITER T) \<and>
         length (split0 DELIMITER T) < length T \<and>
         \<not> contains DELIMITER (split0 DELIMITER T) \<and>
         prefix (split0 DELIMITER T @ DELIMITER) T"
proof -
  from split0_decompose [OF assms(2) DELIMITER_not_Nil]
  obtain rest where T: "T = split0 DELIMITER T @ DELIMITER @ rest" ..
  have nc: "\<not> contains DELIMITER (split0 DELIMITER T)"
    using DELIMITER_not_Nil by (rule split0_no_contains)
  from encode_True_inv [OF assms(1) assms(4)]
  have fit: "length (text_to_binary (T @ DELIMITER)) \<le> length (img_flat img)"
    and sv: "save_fault w out = None" by simp_all
  have "T @ DELIMITER = (split0 DELIMITER T @ DELIMITER) @ (rest @ DELIMITER)"
    using T by simp
  then have "text_to_binary (T @ DELIMITER) =
      text_to_binary (split0 DELIMITER T @ DELIMITER) @ text_to_binary (rest @ DELIMITER)"
    by (simp only: text_to_binary_append)
  from roundtrip_core [OF assms(1) fit sv this assms(3) nc]
  have "decode (snd (encode w p T out)) out = (True, split0 DELIMITER T)" by simp
  then have "decode w' out = (True, split0 DELIMITER T)" by (simp add: assms(4))
  moreover have "length (split0 DELIMITER T) < length T"
    using assms(2) DELIMITER_not_Nil by (rule split0_contains_shorter)
  moreover have "prefix (split0 DELIMITER T @ DELIMITER) T"
    using T by (metis append.assoc prefixI)
  ultimately show ?thesis using nc by simp
qed

text \<open>The payload \<open>hi<<END>>there\<close> on the 10 by 10 carrier: \<open>hi\<close> comes back.\<close>

theorem decode_stops_at_first_terminator_witness:
  "split0 DELIMITER (str ''hi<<END>>there'') = str ''hi'' \<and>
   decode (snd (encode (one_file ''in.png'' (solid_image 10 10 0)) ''in.png''
     (str ''hi<<END>>there'') ''out.png'')) ''out.png'' = (True, str ''hi'')"
proof -
  let ?w = "one_file ''in.png'' (solid_image 10 10 0)"
  let ?T = "str ''hi<<END>>there''"
  have f: "files ?w ''in.png'' = Inr (solid_image 10 10 0)" by (simp add: one_file_def)
  have s: "split0 DELIMITER ?T = str ''hi''" by (simp add: str_def DELIMITER_eq)
  have c: "contains DELIMITER ?T" by (simp add: str_def DELIMITER_eq)
  have p8: "\<forall>c\<in>set (split0 DELIMITER ?T). c \<le> 255" by (simp add: s) (simp add: str_def)
  have t8: "\<forall>c\<in>set (?T @ DELIMITER). c \<le> 255" by (simp add: str_def DELIMITER_def)
  have fit: "length (text_to_binary (?T @ DELIMITER)) \<le> length (img_flat (solid_image 10 10 0))"
    by (simp add: length_text_to_binary_8 [OF t8]) (simp add: str_def DELIMITER_def solid_image_def)
  have sv: "save_fault ?w ''out.png'' = None" by (simp add: one_file_def)
  from encode_success [OF f fit sv]
  have "fst (encode ?w ''in.png'' ?T ''out.png'') = (True, MSG_HIDDEN)" by auto
  then have e: "encode ?w ''in.png'' ?T ''out.png'' =
      ((True, MSG_HIDDEN), snd (encode ?w ''in.png'' ?T ''out.png''))"
    by (simp add: prod_eq_iff)
  from decode_stops_at_first_terminator [OF f c p8 e] s show ?thesis by simp
qed

text \<open>
  Claim C5 as stated fails for a payload with a character above 255 before the
  terminator: U+0100 takes 9 bits, so in the payload of U+0100 followed by \<open><<END>>\<close> the
  terminator is off the byte grid. On an all-zero 7 by 7 carrier (147 channel values, 121
  bits written) \<open>encode\<close> succeeds and \<open>decode\<close> finds no message.
\<close>

theorem decode_stops_at_first_terminator_counterexample:
  "contains DELIMITER (256 # DELIMITER) \<and>
   split0 DELIMITER (256 # DELIMITER) = [256] \<and>
   fst (encode (one_file ''in.png'' (solid_image 7 7 0)) ''in.png'' (256 # DELIMITER)
     ''out.png'') = (True, MSG_HIDDEN) \<and>
   decode (snd (encode (one_file ''in.png'' (solid_image 7 7 0)) ''in.png'' (256 # DELIMITER)
     ''out.png'')) ''out.png'' = (False, MSG_NOT_FOUND) \<and>
   decode (snd (encode (one_file ''in.png'' (solid_image 7 7 0)) ''in.png'' (256 # DELIMITER)
     ''out.png'')) ''out.png'' \<noteq> (True, split0 DELIMITER (256 # DELIMITER))"
proof -
  let ?w = "one_file ''in.png'' (solid_image 7 7 0)"
  let ?T = "256 # DELIMITER"
  let ?bits = "text_to_binary (?T @ DELIMITER)"
  have f: "files ?w ''in.png'' = Inr (solid_image 7 7 0)" by (simp add: one_file_def)
  have sv: "save_fault ?w ''out.png'' = None" by (simp add: one_file_def)
  have c: "contains DELIMITER ?T" by (simp add: DELIMITER_eq)
  have s: "split0 DELIMITER ?T = [256]" by (simp add: DELIMITER_eq)
  have l: "length ?bits = 121" by code_simp
  have flat: "img_flat (solid_image 7 7 0) = replicate 147 0" by (simp add: solid_image_def)
  have fit: "length ?bits \<le> length (img_flat (solid_image 7 7 0))"
    using l by (simp add: flat)
  from encode_success [OF f fit sv] obtain enc where
    enc: "encode_loop (img_flat (solid_image 7 7 0)) 0 ?bits = Inr enc"
    and e: "encode ?w ''in.png'' ?T ''out.png'' =
       ((True, MSG_HIDDEN),
        ?w\<lparr>files := (files ?w)(''out.png'' := Inr (solid_image 7 7 0\<lparr>img_flat := enc\<rparr>))\<rparr>)"
    by blast
  have "map lsb enc = ?bits @ drop (length ?bits) (map lsb (img_flat (solid_image 7 7 0)))"
    using enc fit by (rule encode_loop_lsb)
  also have "drop (length ?bits) (map lsb (img_flat (solid_image 7 7 0))) = replicate 26 False"
    using l by (simp add: flat lsb_odd)
  finally have m: "map lsb enc = ?bits @ replicate 26 False" .
  have n: "\<not> contains DELIMITER (binary_to_text (?bits @ replicate 26 False))"
    by code_simp
  have fl: "files (snd (encode ?w ''in.png'' ?T ''out.png'')) ''out.png'' =
      Inr (solid_image 7 7 0\<lparr>img_flat := enc\<rparr>)"
    by (simp add: e)
  have sel: "img_flat (solid_image 7 7 0\<lparr>img_flat := enc\<rparr>) = enc" by simp
  have d: "decode (snd (encode ?w ''in.png'' ?T ''out.png'')) ''out.png'' = (False, MSG_NOT_FOUND)"
    using decode_Inr [OF fl] n unfolding sel m by (simp only: if_False)
  have "fst (encode ?w ''in.png'' ?T ''out.png'') = (True, MSG_HIDDEN)" by (simp add: e)
  then show ?thesis using c s d by (simp only: simp_thms prod.inject)
qed

subsection \<open>Empty payload\<close>

text \<open>
  Claim C10. \<open>encode\<close> has no check that the payload is non-empty: on a carrier with at
  least 56 channel values, when the save succeeds, encoding the empty text succeeds, the
  first 56 low-order bits of the written image are the bits of the terminator and the
  channel values after them are as they were, and \<open>decode\<close> of the written image
  returns \<open>(True, "")\<close>.
\<close>

theorem encode_empty_payload:
  assumes "files w p = Inr img" and "56 \<le> length (img_flat img)"
    and "save_fault w out = None"
  shows "fst (encode w p [] out) = (True, MSG_HIDDEN) \<and>
         decode (snd (encode w p [] out)) out = (True, []) \<and>
         (\<exists>img'. files (snd (encode w p [] out)) out = Inr img' \<and>
            take 56 (map lsb (img_flat img')) = text_to_binary DELIMITER \<and>
            drop 56 (img_flat img') = drop 56 (img_flat img))"
proof -
  have l: "length (text_to_binary ([] @ DELIMITER)) = 56"
    using length_text_to_binary_8 [OF DELIMITER_8bit] by (simp add: length_DELIMITER)
  then have fit: "length (text_to_binary ([] @ DELIMITER)) \<le> length (img_flat img)"
    using assms(2) by simp
  have "text_to_binary ([] @ DELIMITER) = text_to_binary ([] @ DELIMITER) @ []" by simp
  from roundtrip_core [OF assms(1) fit assms(3) this]
  have rt: "fst (encode w p [] out) = (True, MSG_HIDDEN) \<and>
      decode (snd (encode w p [] out)) out = (True, [])"
    by (simp add: DELIMITER_eq)
  from encode_success [OF assms(1) fit assms(3)] obtain enc where
    enc: "encode_loop (img_flat img) 0 (text_to_binary DELIMITER) = Inr enc"
    and e: "encode w p [] out =
       ((True, MSG_HIDDEN), w\<lparr>files := (files w)(out := Inr (img\<lparr>img_flat := enc\<rparr>))\<rparr>)"
    by auto
  have l': "length (text_to_binary DELIMITER) = 56" using l by simp
  have fit': "length (text_to_binary DELIMITER) \<le> length (img_flat img)" using fit by simp
  have "map lsb enc = text_to_binary DELIMITER @ drop 56 (map lsb (img_flat img))"
    using encode_loop_lsb [OF enc fit'] by (simp add: l')
  then have a: "take 56 (map lsb enc) = text_to_binary DELIMITER"
    by (simp add: l')
  from encode_loop_ok [of 0 "text_to_binary DELIMITER" "img_flat img"] fit' enc
  have len: "length enc = length (img_flat img)"
    and nth: "\<And>j. j < length (img_flat img) \<Longrightarrow> 56 \<le> j \<Longrightarrow> enc ! j = img_flat img ! j"
    by (auto simp: l')
  have b: "drop 56 enc = drop 56 (img_flat img)"
    by (rule nth_equalityI) (simp_all add: len nth)
  have "files (snd (encode w p [] out)) out = Inr (img\<lparr>img_flat := enc\<rparr>)"
    by (simp add: e)
  then show ?thesis using rt a b by simp
qed

text \<open>The smallest RGB carrier that holds the terminator: 19 by 1, 57 channel values.\<close>

theorem encode_empty_payload_witness:
  "fst (encode (one_file ''in.png'' (solid_image 19 1 0)) ''in.png'' [] ''out.png'') =
     (True, MSG_HIDDEN) \<and>
   decode (snd (encode (one_file ''in.png'' (solid_image 19 1 0)) ''in.png'' [] ''out.png''))
     ''out.png'' = (True, [])"
proof -
  let ?w = "one_file ''in.png'' (solid_image 19 1 0)"
  have f: "files ?w ''in.png'' = Inr (solid_image 19 1 0)" by (simp add: one_file_def)
  have l: "56 \<le> length (img_flat (solid_image 19 1 0))" by (simp add: solid_image_def)
  have sv: "save_fault ?w ''out.png'' = None" by (simp add: one_file_def)
  from encode_empty_payload [OF f l sv] show ?thesis by simp
qed

end
